theory Spec2Isabelle
  imports Main
begin

section \<open>Strings and errors\<close>

text \<open>
  A Python \<open>str\<close> is modelled as a \<open>string\<close> whose characters are the code points
  below 256, so \<open>length\<close> counts what Python's \<open>len\<close> counts. Every exception of
  \<open>modul_12.py\<close> is a \<open>ValueError\<close>; the kinds below tell the raise sites apart:
  \<^item> \<open>InvalidValue\<close>: "Invalid phone number" (line 32) and
    "Invalid date format for birthday" (line 49);
  \<^item> \<open>DuplicatePhone\<close>: "Phone number already exists in the record" (line 69) and
    "New phone number already exists in the record" (line 84);
  \<^item> \<open>NotFound\<close>: "Phone number not found in record" (lines 86 and 93);
  \<^item> \<open>LibraryError\<close>: an exception raised inside a library call (\<open>datetime\<close>,
    \<open>int\<close>, \<open>range\<close>, \<open>open\<close>, \<open>pickle.load\<close>) that the code does not catch.
\<close>

datatype error = InvalidValue | DuplicatePhone | NotFound | LibraryError

definition isdecimal :: "char \<Rightarrow> bool" where
  \<comment> \<open>the decimal digits \<open>0\<close> to \<open>9\<close>\<close>
  "isdecimal c = (48 \<le> (of_char c :: nat) \<and> (of_char c :: nat) \<le> 57)"

definition isdigit :: "char \<Rightarrow> bool" where
  \<comment> \<open>\<open>str.isdigit\<close> on one character: besides \<open>0\<close> to \<open>9\<close> it holds for the
      superscript digits U+00B2, U+00B3 and U+00B9.\<close>
  "isdigit c = (isdecimal c \<or> (of_char c :: nat) \<in> {178, 179, 185})"

section \<open>Field, Name, Phone\<close>

datatype Name = Name (name_value: string)

datatype Phone = Phone (phone_value: string)

definition is_valid_phone :: "string \<Rightarrow> bool" where
  \<comment> \<open>line 37: \<open>len(value) == 10 and value.isdigit()\<close>\<close>
  "is_valid_phone v = (length v = 10 \<and> list_all isdigit v)"

definition Phone_init :: "string \<Rightarrow> error + Phone" where
  \<comment> \<open>lines 26 to 33: the setter validates before it stores.\<close>
  "Phone_init v = (if \<not> is_valid_phone v then Inl InvalidValue else Inr (Phone v))"

definition Phone_str :: "Phone \<Rightarrow> string" where
  \<comment> \<open>\<open>Field.__str__\<close>, line 20\<close>
  "Phone_str p = phone_value p"

section \<open>Calendar dates\<close>

text \<open>
  \<open>datetime.date\<close> of the standard library: a proleptic Gregorian date. Subtracting two
  dates gives the difference of their ordinals; comparison is by year, month and day.
\<close>

record date =
  year :: int
  month :: int
  day :: int

definition is_leap :: "int \<Rightarrow> bool" where
  "is_leap y = (y mod 4 = 0 \<and> (y mod 100 \<noteq> 0 \<or> y mod 400 = 0))"

definition days_in_month :: "int \<Rightarrow> int \<Rightarrow> int" where
  "days_in_month y m =
     (if m = 2 then (if is_leap y then 29 else 28)
      else if m = 4 \<or> m = 6 \<or> m = 9 \<or> m = 11 then 30 else 31)"

definition days_before_year :: "int \<Rightarrow> int" where
  "days_before_year y = (y - 1) * 365 + (y - 1) div 4 - (y - 1) div 100 + (y - 1) div 400"

definition days_before_month :: "int \<Rightarrow> int \<Rightarrow> int" where
  "days_before_month y m = sum_list (map (\<lambda>k. days_in_month y (int k)) [1 ..< nat m])"

definition toordinal :: "date \<Rightarrow> int" where
  "toordinal d = days_before_year (year d) + days_before_month (year d) (month d) + day d"

definition date_gt :: "date \<Rightarrow> date \<Rightarrow> bool" where
  "date_gt a b =
     (year a > year b \<or> (year a = year b \<and>
       (month a > month b \<or> (month a = month b \<and> day a > day b))))"

definition check_date_fields :: "int \<Rightarrow> int \<Rightarrow> int \<Rightarrow> bool" where
  \<comment> \<open>what the \<open>date\<close> and \<open>datetime\<close> constructors accept\<close>
  "check_date_fields y m d =
     (1 \<le> y \<and> y \<le> 9999 \<and> 1 \<le> m \<and> m \<le> 12 \<and> 1 \<le> d \<and> d \<le> days_in_month y m)"

definition check_time_fields :: "int list \<Rightarrow> bool" where
  \<comment> \<open>hour, minute, second, microsecond, as many as are given\<close>
  "check_time_fields ts =
     list_all (\<lambda>(v, hi). 0 \<le> v \<and> v \<le> hi) (zip ts [23, 59, 59, 999999])"

definition datetime_date :: "int \<Rightarrow> int list \<Rightarrow> error + date" where
  \<comment> \<open>\<open>datetime(y, *args).date()\<close>: the positional arguments after the year are month,
      day, hour, minute, second, microsecond. Fewer than two, or more than six (the
      seventh would be an \<open>int\<close> for \<open>tzinfo\<close>), is a \<open>TypeError\<close>; a field out of
      range is a \<open>ValueError\<close>.\<close>
  "datetime_date y args =
     (case args of
        m # d # ts \<Rightarrow>
          if length ts \<le> 4 \<and> check_date_fields y m d \<and> check_time_fields ts
          then Inr \<lparr>year = y, month = m, day = d\<rparr>
          else Inl LibraryError
      | _ \<Rightarrow> Inl LibraryError)"

section \<open>Parsing: \<open>str.split\<close>, \<open>int\<close>, \<open>strptime\<close>\<close>

fun str_split :: "char \<Rightarrow> string \<Rightarrow> string list" where
  "str_split sep [] = [[]]"
| "str_split sep (c # cs) =
     (if c = sep then [] # str_split sep cs
      else (case str_split sep cs of
              p # ps \<Rightarrow> (c # p) # ps
            | [] \<Rightarrow> [[c]]))"

definition isspace :: "char \<Rightarrow> bool" where
  \<comment> \<open>\<open>str.isspace\<close> on one character below 256\<close>
  "isspace c = (let n = (of_char c :: nat) in
     (9 \<le> n \<and> n \<le> 13) \<or> (28 \<le> n \<and> n \<le> 32) \<or> n = 133 \<or> n = 160)"

definition strip :: "string \<Rightarrow> string" where
  "strip s = rev (dropWhile isspace (rev (dropWhile isspace s)))"

fun int_body_ok :: "string \<Rightarrow> bool" where
  \<comment> \<open>decimal digits, with single underscores allowed between two digits\<close>
  "int_body_ok [] = False"
| "int_body_ok [c] = isdecimal c"
| "int_body_ok (c # u # cs) =
     (isdecimal c \<and> (if u = CHR ''_'' then int_body_ok cs else int_body_ok (u # cs)))"

fun digits_value :: "int \<Rightarrow> string \<Rightarrow> int" where
  "digits_value acc [] = acc"
| "digits_value acc (c # cs) =
     (if c = CHR ''_'' then digits_value acc cs
      else digits_value (10 * acc + (of_char c - 48)) cs)"

definition py_int :: "string \<Rightarrow> error + int" where
  \<comment> \<open>\<open>int(s)\<close> in base 10: surrounding whitespace, one optional sign, then the digits.
      (The interpreter's limit on the number of digits is not modelled.)\<close>
  "py_int s =
     (case strip s of
        [] \<Rightarrow> Inl LibraryError
      | c # cs \<Rightarrow>
          if c = CHR ''-'' then
            (if int_body_ok cs then Inr (- digits_value 0 cs) else Inl LibraryError)
          else if c = CHR ''+'' then
            (if int_body_ok cs then Inr (digits_value 0 cs) else Inl LibraryError)
          else if int_body_ok (c # cs) then Inr (digits_value 0 (c # cs))
          else Inl LibraryError)"

fun map_int :: "string list \<Rightarrow> error + int list" where
  \<comment> \<open>\<open>map(int, parts)\<close>, unpacked: the first failing conversion raises.\<close>
  "map_int [] = Inr []"
| "map_int (p # ps) =
     (case py_int p of
        Inl e \<Rightarrow> Inl e
      | Inr v \<Rightarrow> (case map_int ps of Inl e \<Rightarrow> Inl e | Inr vs \<Rightarrow> Inr (v # vs)))"

definition nonzero_digit :: "char \<Rightarrow> bool" where
  "nonzero_digit c = (isdecimal c \<and> c \<noteq> CHR ''0'')"

fun month_field :: "string \<Rightarrow> bool" where
  \<comment> \<open>the directive \<open>%m\<close>: \<open>1[0-2]|0[1-9]|[1-9]\<close>\<close>
  "month_field [a] = nonzero_digit a"
| "month_field [a, b] =
     ((a = CHR ''1'' \<and> (b = CHR ''0'' \<or> b = CHR ''1'' \<or> b = CHR ''2''))
      \<or> (a = CHR ''0'' \<and> nonzero_digit b))"
| "month_field _ = False"

fun day_field :: "string \<Rightarrow> bool" where
  \<comment> \<open>the directive \<open>%d\<close>: \<open>3[0-1]|[1-2]\d|0[1-9]|[1-9]| [1-9]\<close>\<close>
  "day_field [a] = nonzero_digit a"
| "day_field [a, b] =
     ((a = CHR ''3'' \<and> (b = CHR ''0'' \<or> b = CHR ''1''))
      \<or> ((a = CHR ''1'' \<or> a = CHR ''2'') \<and> isdecimal b)
      \<or> ((a = CHR ''0'' \<or> a = CHR '' '') \<and> nonzero_digit b))"
| "day_field _ = False"

definition strptime_ymd :: "string \<Rightarrow> error + date" where
  \<comment> \<open>\<open>datetime.strptime(s, '%Y-%m-%d')\<close>: the whole string must match four digits, a
      month and a day separated by hyphens, and the three must name a real date.\<close>
  "strptime_ymd s =
     (case str_split CHR ''-'' s of
        [y, m, d] \<Rightarrow>
          if length y = 4 \<and> list_all isdecimal y \<and> month_field m \<and> day_field d
               \<and> check_date_fields (digits_value 0 y) (digits_value 0 m)
                    (digits_value 0 (strip d))
          then Inr \<lparr>year = digits_value 0 y, month = digits_value 0 m,
                     day = digits_value 0 (strip d)\<rparr>
          else Inl LibraryError
      | _ \<Rightarrow> Inl LibraryError)"

section \<open>Birthday\<close>

datatype Birthday = Birthday (birthday_value: string)

definition Birthday_init :: "string \<Rightarrow> error + Birthday" where
  \<comment> \<open>lines 43 to 49: the \<open>ValueError\<close> of \<open>strptime\<close> is caught and raised again.\<close>
  "Birthday_init v =
     (case strptime_ymd v of
        Inr _ \<Rightarrow> Inr (Birthday v)
      | Inl _ \<Rightarrow> Inl InvalidValue)"

section \<open>Record\<close>

text \<open>
  Objects are modelled by their values: a \<open>Phone\<close> is the string it holds. A method
  that mutates \<open>self\<close> returns its outcome (\<open>Inr ()\<close> for a normal return, \<open>Inl e\<close>
  for the exception it raises) together with the record as the call leaves it.
\<close>

record Record =
  name :: Name
  phones :: "Phone list"
  birthday :: "Birthday option"

type_synonym outcome = "error + unit"

definition add_phone :: "Record \<Rightarrow> string \<Rightarrow> outcome \<times> Record" where
  \<comment> \<open>lines 64 to 69\<close>
  "add_phone self phone_number =
     (case Phone_init phone_number of
        Inl e \<Rightarrow> (Inl e, self)
      | Inr phone \<Rightarrow>
          if phone_value phone \<notin> set (map phone_value (phones self))
          then (Inr (), self\<lparr>phones := phones self @ [phone]\<rparr>)
          else (Inl DuplicatePhone, self))"

fun find_phone_loop :: "Phone list \<Rightarrow> string \<Rightarrow> Phone option" where
  "find_phone_loop [] phone_number = None"
| "find_phone_loop (phone # rest) phone_number =
     (if phone_value phone = phone_number then Some phone
      else find_phone_loop rest phone_number)"

definition find_phone :: "Record \<Rightarrow> string \<Rightarrow> Phone option" where
  \<comment> \<open>lines 71 to 75\<close>
  "find_phone self phone_number = find_phone_loop (phones self) phone_number"

fun assign_value :: "Phone \<Rightarrow> Phone \<Rightarrow> Phone list \<Rightarrow> Phone list" where
  \<comment> \<open>the list after the object \<open>phone_obj\<close> in it was given a new value: \<open>phone_obj\<close>
      is the first phone of the list with its value, as \<open>find_phone\<close> returned it.\<close>
  "assign_value phone_obj new_obj [] = []"
| "assign_value phone_obj new_obj (p # ps) =
     (if p = phone_obj then new_obj # ps else p # assign_value phone_obj new_obj ps)"

definition edit_phone :: "Record \<Rightarrow> string \<Rightarrow> string \<Rightarrow> outcome \<times> Record" where
  \<comment> \<open>lines 77 to 86. The assignment of line 82 runs the validating setter again, on
      the value that \<open>Phone(new_phone)\<close> has just accepted.\<close>
  "edit_phone self old_phone new_phone =
     (case find_phone self old_phone of
        Some phone_obj \<Rightarrow>
          (case Phone_init new_phone of
             Inl e \<Rightarrow> (Inl e, self)
           | Inr new_phone_obj \<Rightarrow>
               if phone_value new_phone_obj \<notin> set (map phone_value (phones self))
               then (case Phone_init (phone_value new_phone_obj) of
                       Inl e \<Rightarrow> (Inl e, self)
                     | Inr stored \<Rightarrow>
                         (Inr (), self\<lparr>phones := assign_value phone_obj stored (phones self)\<rparr>))
               else (Inl DuplicatePhone, self))
      | None \<Rightarrow> (Inl NotFound, self))"

definition remove_phone :: "Record \<Rightarrow> string \<Rightarrow> outcome \<times> Record" where
  \<comment> \<open>lines 88 to 93: \<open>list.remove\<close> takes out the first occurrence of the object.\<close>
  "remove_phone self phone =
     (case find_phone self phone of
        Some phone_obj \<Rightarrow> (Inr (), self\<lparr>phones := remove1 phone_obj (phones self)\<rparr>)
      | None \<Rightarrow> (Inl NotFound, self))"

fun add_phones :: "Record \<Rightarrow> string list \<Rightarrow> error + Record" where
  \<comment> \<open>the loop of lines 57 and 58, inside the constructor: an exception leaves no
      record behind.\<close>
  "add_phones self [] = Inr self"
| "add_phones self (phone_number # rest) =
     (case add_phone self phone_number of
        (Inl e, _) \<Rightarrow> Inl e
      | (Inr _, self') \<Rightarrow> add_phones self' rest)"

definition Record_init :: "string \<Rightarrow> string list \<Rightarrow> string option \<Rightarrow> error + Record" where
  \<comment> \<open>lines 52 to 58; \<open>phone_numbers=None\<close> is the empty list, and an empty birthday
      string is falsy like \<open>None\<close>.\<close>
  "Record_init nm phone_numbers bday =
     (case (case bday of
              None \<Rightarrow> Inr None
            | Some b \<Rightarrow> if b = [] then Inr None else map_sum id Some (Birthday_init b)) of
        Inl e \<Rightarrow> Inl e
      | Inr b \<Rightarrow> add_phones \<lparr>name = Name nm, phones = [], birthday = b\<rparr> phone_numbers)"

definition days_to_birthday :: "Record \<Rightarrow> date \<Rightarrow> error + int option" where
  \<comment> \<open>lines 95 to 102; \<open>today\<close> is the value of \<open>datetime.now().date()\<close>.\<close>
  "days_to_birthday self today =
     (case birthday self of
        Some b \<Rightarrow>
          (case map_int (str_split CHR ''-'' (birthday_value b)) of
             Inl e \<Rightarrow> Inl e
           | Inr args \<Rightarrow>
               (case datetime_date (year today) args of
                  Inl e \<Rightarrow> Inl e
                | Inr next_birthday \<Rightarrow>
                    if date_gt today next_birthday then
                      (case datetime_date (year today + 1) args of
                         Inl e \<Rightarrow> Inl e
                       | Inr next_birthday' \<Rightarrow>
                           Inr (Some (toordinal next_birthday' - toordinal today)))
                    else Inr (Some (toordinal next_birthday - toordinal today))))
      | None \<Rightarrow> Inr None)"

section \<open>AddressBook\<close>

text \<open>
  \<open>self.data\<close> is a \<open>dict\<close>, which keeps its keys in insertion order: an association
  list with distinct keys.
\<close>

type_synonym data = "(string \<times> Record) list"

text \<open>The attribute \<open>self.file\<close> is the field \<open>file_path\<close>.\<close>

record AddressBook =
  file_path :: string
  record_id :: int
  data :: data

fun dict_set :: "string \<Rightarrow> Record \<Rightarrow> data \<Rightarrow> data" where
  \<comment> \<open>\<open>d[k] = v\<close>: an existing key keeps its place, a new one goes last.\<close>
  "dict_set k v [] = [(k, v)]"
| "dict_set k v ((k', v') # d) =
     (if k' = k then (k, v) # d else (k', v') # dict_set k v d)"

fun dict_del :: "string \<Rightarrow> data \<Rightarrow> data" where
  "dict_del k [] = []"
| "dict_del k ((k', v') # d) = (if k' = k then d else (k', v') # dict_del k d)"

definition dict_values :: "data \<Rightarrow> Record list" where
  "dict_values d = map snd d"

definition add_record :: "AddressBook \<Rightarrow> Record \<Rightarrow> AddressBook" where
  \<comment> \<open>lines 111 to 113\<close>
  "add_record self record =
     self\<lparr>data := dict_set (name_value (name record)) record (data self),
          record_id := record_id self + 1\<rparr>"

definition lower_char :: "char \<Rightarrow> char" where
  \<comment> \<open>\<open>str.lower\<close> on one character below 256: the letters A to Z, and the accented
      capitals U+00C0 to U+00DE except the sign U+00D7, move up by 32.\<close>
  "lower_char c = (let n = (of_char c :: nat) in
     if (65 \<le> n \<and> n \<le> 90) \<or> (192 \<le> n \<and> n \<le> 222 \<and> n \<noteq> 215)
     then char_of (n + 32) else c)"

definition lower :: "string \<Rightarrow> string" where
  "lower s = map lower_char s"

fun startswith :: "string \<Rightarrow> string \<Rightarrow> bool" where
  "startswith s [] = True"
| "startswith [] (q # qs) = False"
| "startswith (c # cs) (q # qs) = (c = q \<and> startswith cs qs)"

fun str_contains :: "string \<Rightarrow> string \<Rightarrow> bool" where
  \<comment> \<open>\<open>q in s\<close> on strings\<close>
  "str_contains q [] = (q = [])"
| "str_contains q (c # cs) = (startswith (c # cs) q \<or> str_contains q cs)"

fun find_phones_loop :: "string \<Rightarrow> Record \<Rightarrow> Phone list \<Rightarrow> Record list \<Rightarrow> Record list" where
  \<comment> \<open>the inner loop, lines 120 to 122\<close>
  "find_phones_loop query record [] results = results"
| "find_phones_loop query record (phone # rest) results =
     find_phones_loop query record rest
       (if str_contains query (phone_value phone) then results @ [record] else results)"

fun find_loop :: "string \<Rightarrow> Record list \<Rightarrow> Record list \<Rightarrow> Record list" where
  \<comment> \<open>the outer loop, lines 117 to 122\<close>
  "find_loop query [] results = results"
| "find_loop query (record # rest) results =
     find_loop query rest
       (find_phones_loop query record (phones record)
          (if str_contains (lower query) (lower (name_value (name record)))
           then results @ [record] else results))"

definition find_ab :: "AddressBook \<Rightarrow> string \<Rightarrow> Record list" where
  \<comment> \<open>\<open>AddressBook.find\<close>, lines 115 to 123\<close>
  "find_ab self query = find_loop query (dict_values (data self)) []"

definition delete_ab :: "AddressBook \<Rightarrow> string \<Rightarrow> AddressBook" where
  \<comment> \<open>\<open>AddressBook.delete\<close>, lines 125 to 127\<close>
  "delete_ab self nm =
     (if nm \<in> set (map fst (data self)) then self\<lparr>data := dict_del nm (data self)\<rparr>
      else self)"

function iterator_loop :: "Record list \<Rightarrow> nat \<Rightarrow> nat \<Rightarrow> Record list list" where
  \<comment> \<open>lines 131 and 132, from index \<open>i\<close> on: \<open>records[i:i + batch_size]\<close> is
      \<open>take batch_size (drop i records)\<close>.\<close>
  "iterator_loop records batch_size i =
     (if 0 < batch_size \<and> i < length records
      then take batch_size (drop i records) # iterator_loop records batch_size (i + batch_size)
      else [])"
  by pat_completeness auto
termination
  by (relation "measure (\<lambda>(records, batch_size, i). length records - i)") auto

definition iterator :: "AddressBook \<Rightarrow> int \<Rightarrow> error + Record list list" where
  \<comment> \<open>lines 129 to 132, the batches the generator yields, in order. \<open>range\<close> raises
      \<open>ValueError\<close> for a zero step and is empty for a negative one.\<close>
  "iterator self batch_size =
     (let records = dict_values (data self) in
      if batch_size = 0 then Inl LibraryError
      else if batch_size < 0 then Inr []
      else Inr (iterator_loop records (nat batch_size) 0))"

section \<open>Persistence: pickle and the file system\<close>


















section \<open>Invariant, search results and example data\<close>

definition Record_inv :: "Record \<Rightarrow> bool" where
  \<comment> \<open>no two phones of the record have equal value\<close>
  "Record_inv r = distinct (map phone_value (phones r))"

definition john :: Record where
  \<comment> \<open>\<open>Record("John Doe", phone_numbers=["1234567890"], birthday="1990-05-15")\<close>,
      line 173\<close>
  "john = \<lparr>name = Name ''John Doe'', phones = [Phone ''1234567890''],
            birthday = Some (Birthday ''1990-05-15'')\<rparr>"

definition superscript_twos :: string where
  \<comment> \<open>ten times the character U+00B2, SUPERSCRIPT TWO\<close>
  "superscript_twos = replicate 10 (CHR 0xB2)"

definition new_book :: "string \<Rightarrow> AddressBook" where
  \<comment> \<open>\<open>AddressBook(f)\<close> when no file \<open>f\<close> exists: lines 106 to 108, and \<open>load\<close> passes.\<close>
  "new_book f = \<lparr>file_path = f, record_id = 1, data = []\<rparr>"

definition name_matches :: "string \<Rightarrow> Record \<Rightarrow> bool" where
  \<comment> \<open>the test of line 118\<close>
  "name_matches q r = str_contains (lower q) (lower (name_value (name r)))"

definition matching_phones :: "string \<Rightarrow> Record \<Rightarrow> Phone list" where
  \<comment> \<open>the phones of the record that pass the test of line 121\<close>
  "matching_phones q r = filter (\<lambda>p. str_contains q (phone_value p)) (phones r)"

definition hits :: "string \<Rightarrow> Record \<Rightarrow> Record list" where
  \<comment> \<open>the entries one record contributes to a search: one if its name matches, and one
      more for each matching phone\<close>
  "hits q r =
     (if name_matches q r then [r] else []) @ replicate (length (matching_phones q r)) r"



definition ann :: Record where
  \<comment> \<open>\<open>Record("Ann", birthday="0005-03-15")\<close>\<close>
  "ann = \<lparr>name = Name ''Ann'', phones = [], birthday = Some (Birthday ''0005-03-15'')\<rparr>"

definition rec_named :: "string \<Rightarrow> Record" where
  \<comment> \<open>\<open>Record(nm)\<close>\<close>
  "rec_named nm = \<lparr>name = Name nm, phones = [], birthday = None\<rparr>"

definition five_book :: AddressBook where
  \<comment> \<open>a new book after \<open>add_record\<close> of five records\<close>
  "five_book = foldl add_record (new_book ''address_book.pkl'')
     (map rec_named [''a'', ''b'', ''c'', ''d'', ''e''])"

section \<open>Phone\<close>

lemma Phone_init_valid: "is_valid_phone v \<Longrightarrow> Phone_init v = Inr (Phone v)"
  by (simp add: Phone_init_def)

lemma Phone_init_Inr: "Phone_init v = Inr p \<Longrightarrow> p = Phone v \<and> is_valid_phone v"
  by (simp add: Phone_init_def split: if_splits)

lemma isdecimal_isdigit: "isdecimal c \<Longrightarrow> isdigit c"
  by (simp add: isdigit_def)

text \<open>
  C5, as stated, fails: \<open>Phone\<close> accepts the string of ten superscript twos, which has
  no decimal digit in it, because \<open>str.isdigit\<close> holds for that character.
\<close>

theorem Phone_init_superscript_counterexample:
  "Phone_init superscript_twos = Inr (Phone superscript_twos)
   \<and> \<not> list_all isdecimal superscript_twos"
  by code_simp

text \<open>
  C5, amended: constructing a Phone from \<open>s\<close> succeeds if and only if \<open>s\<close> has exactly
  10 characters and \<open>str.isdigit\<close> holds for each (the decimal digits and the
  superscript digits); the Phone then displays as \<open>s\<close>. For every other string the
  construction fails with InvalidValue. Every string of 10 decimal digits is accepted.
\<close>

theorem Phone_init_accepts_iff:
  "(Phone_init s = Inr p \<longleftrightarrow> length s = 10 \<and> list_all isdigit s \<and> p = Phone s)
   \<and> (Phone_init s = Inr p \<longrightarrow> Phone_str p = s)
   \<and> (\<not> (length s = 10 \<and> list_all isdigit s) \<longrightarrow> Phone_init s = Inl InvalidValue)
   \<and> (length s = 10 \<and> list_all isdecimal s \<longrightarrow> Phone_init s = Inr (Phone s))"
proof -
  have "list_all isdecimal s \<Longrightarrow> list_all isdigit s"
    by (induction s) (simp_all add: isdecimal_isdigit)
  then show ?thesis
    by (auto simp: Phone_init_def is_valid_phone_def Phone_str_def)
qed

theorem Phone_init_accepts_iff_witness:
  "Phone_init ''1234567890'' = Inr (Phone ''1234567890'')
   \<and> Phone_str (Phone ''1234567890'') = ''1234567890''
   \<and> Phone_init ''12345'' = Inl InvalidValue
   \<and> Phone_init ''12345abcde'' = Inl InvalidValue"
  using Phone_init_accepts_iff [of "''1234567890''" "Phone ''1234567890''"]
    Phone_init_accepts_iff [of "''12345''" "Phone ''12345''"]
    Phone_init_accepts_iff [of "''12345abcde''" "Phone ''12345abcde''"]
  by (simp add: isdigit_def isdecimal_def)

section \<open>Record: looking phones up\<close>

lemma find_phone_loop_eq:
  "find_phone_loop ps n = (if n \<in> set (map phone_value ps) then Some (Phone n) else None)"
proof (induction ps)
  case Nil
  then show ?case by simp
next
  case (Cons p ps)
  then show ?case by (cases p) auto
qed

lemma find_phone_eq:
  "find_phone r n = (if n \<in> set (map phone_value (phones r)) then Some (Phone n) else None)"
  by (simp add: find_phone_def find_phone_loop_eq)

lemma Phone_in_set: "Phone n \<in> set ps \<longleftrightarrow> n \<in> set (map phone_value ps)"
proof
  assume "Phone n \<in> set ps"
  then have "phone_value (Phone n) \<in> phone_value ` set ps" by (rule imageI)
  then show "n \<in> set (map phone_value ps)" by simp
next
  assume "n \<in> set (map phone_value ps)"
  then obtain p where p: "p \<in> set ps" "phone_value p = n" by auto
  have "Phone (phone_value p) = p" by simp
  with p show "Phone n \<in> set ps" by simp
qed

text \<open>
  C6: for a valid phone number \<open>n\<close>, the second of two calls \<open>add_phone(n)\<close> raises
  DuplicatePhone and leaves the record, hence the length of its phone list, as the first
  call left it.
\<close>

theorem add_phone_twice:
  assumes "is_valid_phone n"
  shows "fst (add_phone (snd (add_phone r n)) n) = Inl DuplicatePhone
       \<and> snd (add_phone (snd (add_phone r n)) n) = snd (add_phone r n)
       \<and> length (phones (snd (add_phone (snd (add_phone r n)) n)))
           = length (phones (snd (add_phone r n)))"
  using assms by (auto simp: add_phone_def Phone_init_valid)

theorem add_phone_twice_witness:
  "is_valid_phone ''5555555555''
   \<and> add_phone john ''5555555555''
       = (Inr (), john\<lparr>phones := [Phone ''1234567890'', Phone ''5555555555'']\<rparr>)
   \<and> add_phone (john\<lparr>phones := [Phone ''1234567890'', Phone ''5555555555'']\<rparr>) ''5555555555''
       = (Inl DuplicatePhone, john\<lparr>phones := [Phone ''1234567890'', Phone ''5555555555'']\<rparr>)"
proof -
  have v: "is_valid_phone ''5555555555''"
    by (simp add: is_valid_phone_def isdigit_def isdecimal_def)
  have a: "add_phone john ''5555555555''
       = (Inr (), john\<lparr>phones := [Phone ''1234567890'', Phone ''5555555555'']\<rparr>)"
    by (simp add: add_phone_def Phone_init_valid [OF v] john_def)
  show ?thesis
    using v a add_phone_twice [OF v, of john] by (simp add: prod_eq_iff)
qed

text \<open>
  C7: when no phone of the record has the value \<open>old\<close>, \<open>edit_phone(old, new)\<close> raises
  NotFound and the record (name, phones, birthday) is as before.
\<close>

theorem edit_phone_absent:
  assumes "old \<notin> set (map phone_value (phones r))"
  shows "edit_phone r old new = (Inl NotFound, r)"
  using assms by (simp add: edit_phone_def find_phone_eq)

theorem edit_phone_absent_witness:
  "''0000000000'' \<notin> set (map phone_value (phones john))
   \<and> edit_phone john ''0000000000'' ''9999999999'' = (Inl NotFound, john)"
proof -
  have h: "''0000000000'' \<notin> set (map phone_value (phones john))"
    by (simp add: john_def)
  show ?thesis
    using h edit_phone_absent [OF h, of "''9999999999''"] by simp
qed

section \<open>Record: editing in place\<close>

lemma assign_value_index:
  "Phone old \<in> set ps \<Longrightarrow>
   \<exists>i < length ps. ps ! i = Phone old \<and> (\<forall>j < i. ps ! j \<noteq> Phone old)
      \<and> assign_value (Phone old) q ps = ps[i := q]"
proof (induction ps)
  case Nil
  then show ?case by simp
next
  case (Cons p ps)
  show ?case
  proof (cases "p = Phone old")
    case True
    then show ?thesis by (intro exI [of _ 0]) simp
  next
    case False
    with Cons obtain i where i: "i < length ps" "ps ! i = Phone old"
      "\<forall>j < i. ps ! j \<noteq> Phone old" "assign_value (Phone old) q ps = ps[i := q]"
      by auto
    show ?thesis
      using False i by (intro exI [of _ "Suc i"]) (auto simp: less_Suc_eq_0_disj)
  qed
qed

lemma set_assign_value:
  "distinct (map phone_value ps) \<Longrightarrow> Phone old \<in> set ps \<Longrightarrow>
   set (map phone_value (assign_value (Phone old) q ps))
     = insert (phone_value q) (set (map phone_value ps) - {old})"
proof (induction ps)
  case Nil
  then show ?case by simp
next
  case (Cons p ps)
  then show ?case by (cases p) (auto simp: image_iff)
qed

lemma values_assign_value_subset:
  "set (map phone_value (assign_value p q ps))
     \<subseteq> insert (phone_value q) (set (map phone_value ps))"
  by (induction ps) auto

lemma distinct_assign_value:
  "distinct (map phone_value ps) \<Longrightarrow> phone_value q \<notin> set (map phone_value ps) \<Longrightarrow>
   distinct (map phone_value (assign_value p q ps))"
proof (induction ps)
  case Nil
  then show ?case by simp
next
  case (Cons a ps)
  show ?case
  proof (cases "a = p")
    case True
    with Cons.prems show ?thesis by simp
  next
    case False
    have "phone_value a \<notin> set (map phone_value (assign_value p q ps))"
      using values_assign_value_subset [of p q ps] Cons.prems by auto
    with False Cons show ?thesis by simp
  qed
qed

text \<open>
  C8: in a record whose phones are pairwise different, when \<open>old\<close> is the value of a
  phone and \<open>new\<close> is a valid number that no phone has, \<open>edit_phone(old, new)\<close> returns
  normally; the phone list differs from the old one exactly at the position of \<open>old\<close>,
  which now holds \<open>new\<close>; name and birthday are as before; afterwards
  \<open>find_phone(old)\<close> is none and \<open>find_phone(new)\<close> is the Phone.
\<close>

theorem edit_phone_replaces_in_place:
  assumes "old \<in> set (map phone_value (phones r))"
    and "is_valid_phone new"
    and "new \<notin> set (map phone_value (phones r))"
    and "distinct (map phone_value (phones r))"
  shows "\<exists>r' i. edit_phone r old new = (Inr (), r')
       \<and> i < length (phones r) \<and> phones r ! i = Phone old
       \<and> phones r' = (phones r)[i := Phone new]
       \<and> name r' = name r \<and> birthday r' = birthday r
       \<and> find_phone r' old = None \<and> find_phone r' new = Some (Phone new)"
proof -
  let ?r' = "r\<lparr>phones := assign_value (Phone old) (Phone new) (phones r)\<rparr>"
  have mem: "Phone old \<in> set (phones r)"
    using assms(1) by (simp only: Phone_in_set)
  have e: "edit_phone r old new = (Inr (), ?r')"
    using assms by (simp add: edit_phone_def find_phone_eq Phone_init_valid)
  obtain i where i: "i < length (phones r)" "phones r ! i = Phone old"
    "assign_value (Phone old) (Phone new) (phones r) = (phones r)[i := Phone new]"
    using assign_value_index [OF mem] by blast
  have vals: "set (map phone_value (phones ?r'))
      = insert new (set (map phone_value (phones r)) - {old})"
    using set_assign_value [OF assms(4) mem, of "Phone new"] by simp
  have "old \<noteq> new" using assms(1,3) by auto
  then have f1: "find_phone ?r' old = None" and f2: "find_phone ?r' new = Some (Phone new)"
    unfolding find_phone_eq vals by simp_all
  show ?thesis
    using e i f1 f2 by (intro exI [of _ ?r'] exI [of _ i]) simp
qed

theorem edit_phone_replaces_in_place_witness:
  "''1234567890'' \<in> set (map phone_value (phones john))
   \<and> is_valid_phone ''9999999999''
   \<and> ''9999999999'' \<notin> set (map phone_value (phones john))
   \<and> distinct (map phone_value (phones john))
   \<and> (\<exists>r'. edit_phone john ''1234567890'' ''9999999999'' = (Inr (), r')
         \<and> phones r' = [Phone ''9999999999'']
         \<and> find_phone r' ''1234567890'' = None
         \<and> find_phone r' ''9999999999'' = Some (Phone ''9999999999''))"
proof -
  have h1: "''1234567890'' \<in> set (map phone_value (phones john))"
    by (simp add: john_def)
  have h2: "is_valid_phone ''9999999999''"
    by (simp add: is_valid_phone_def isdigit_def isdecimal_def)
  have h3: "''9999999999'' \<notin> set (map phone_value (phones john))"
    by (simp add: john_def)
  have h4: "distinct (map phone_value (phones john))"
    by (simp add: john_def)
  obtain r' i where r': "edit_phone john ''1234567890'' ''9999999999'' = (Inr (), r')"
    "i < length (phones john)" "phones r' = (phones john)[i := Phone ''9999999999'']"
    "find_phone r' ''1234567890'' = None"
    "find_phone r' ''9999999999'' = Some (Phone ''9999999999'')"
    using edit_phone_replaces_in_place [OF h1 h2 h3 h4] by blast
  from r'(2) have "i = 0" by (simp add: john_def)
  with r'(3) have "phones r' = [Phone ''9999999999'']" by (simp add: john_def)
  with r' h1 h2 h3 h4 show ?thesis by blast
qed

text \<open>
  C10: when \<open>x\<close> is a valid phone number and the value of a phone of the record,
  \<open>edit_phone(x, x)\<close> raises DuplicatePhone and the record is as before.
\<close>

theorem edit_phone_same_number:
  assumes "x \<in> set (map phone_value (phones r))" and "is_valid_phone x"
  shows "edit_phone r x x = (Inl DuplicatePhone, r)"
  using assms by (simp add: edit_phone_def find_phone_eq Phone_init_valid)

theorem edit_phone_same_number_witness:
  "''1234567890'' \<in> set (map phone_value (phones john))
   \<and> is_valid_phone ''1234567890''
   \<and> edit_phone john ''1234567890'' ''1234567890'' = (Inl DuplicatePhone, john)"
proof -
  have h1: "''1234567890'' \<in> set (map phone_value (phones john))"
    by (simp add: john_def)
  have h2: "is_valid_phone ''1234567890''"
    by (simp add: is_valid_phone_def isdigit_def isdecimal_def)
  show ?thesis
    using h1 h2 edit_phone_same_number [OF h1 h2] by simp
qed

section \<open>Record: the invariant\<close>

lemma distinct_remove1_values:
  "distinct (map phone_value ps) \<Longrightarrow> distinct (map phone_value (remove1 p ps))"
proof (induction ps)
  case Nil
  then show ?case by simp
next
  case (Cons a ps)
  have "set (remove1 p ps) \<subseteq> set ps" by (rule set_remove1_subset)
  with Cons show ?case by auto
qed

lemma add_phone_inv: "Record_inv r \<Longrightarrow> Record_inv (snd (add_phone r n))"
  by (auto simp: add_phone_def Record_inv_def split: sum.splits)

lemma edit_phone_inv: "Record_inv r \<Longrightarrow> Record_inv (snd (edit_phone r old new))"
  by (auto simp: edit_phone_def Record_inv_def split: sum.splits option.splits
      dest!: Phone_init_Inr intro!: distinct_assign_value)

lemma remove_phone_inv: "Record_inv r \<Longrightarrow> Record_inv (snd (remove_phone r n))"
  by (auto simp: remove_phone_def Record_inv_def distinct_remove1_values split: option.splits)

lemma add_phones_inv: "Record_inv r \<Longrightarrow> add_phones r ns = Inr r' \<Longrightarrow> Record_inv r'"
proof (induction ns arbitrary: r)
  case Nil
  then show ?case by simp
next
  case (Cons n ns)
  obtain out r1 where a: "add_phone r n = (out, r1)" by (cases "add_phone r n")
  with Cons.prems(2) have "add_phones r1 ns = Inr r'"
    by (cases out) auto
  moreover have "Record_inv r1"
    using add_phone_inv [OF Cons.prems(1), of n] a by simp
  ultimately show ?case by (rule Cons.IH [rotated])
qed

lemma Record_init_inv: "Record_init nm ns b = Inr r \<Longrightarrow> Record_inv r"
proof -
  assume h: "Record_init nm ns b = Inr r"
  then obtain b' where "add_phones \<lparr>name = Name nm, phones = [], birthday = b'\<rparr> ns = Inr r"
    by (auto simp: Record_init_def split: sum.splits)
  moreover have "Record_inv \<lparr>name = Name nm, phones = [], birthday = b'\<rparr>"
    by (simp add: Record_inv_def)
  ultimately show ?thesis by (rule add_phones_inv [rotated])
qed

lemma Record_init_john:
  "Record_init ''John Doe'' [''1234567890''] (Some ''1990-05-15'') = Inr john"
  by code_simp

text \<open>
  C9: every record the constructor returns has pairwise different phone values, and
  \<open>add_phone\<close>, \<open>edit_phone\<close> and \<open>remove_phone\<close> each leave a record with pairwise
  different phone values in such a state, whether they return or raise.
\<close>

theorem unique_phones_invariant:
  "(Record_init nm ns b = Inr r \<longrightarrow> Record_inv r)
   \<and> (Record_inv r0 \<longrightarrow>
        Record_inv (snd (add_phone r0 n))
        \<and> Record_inv (snd (edit_phone r0 old new))
        \<and> Record_inv (snd (remove_phone r0 n)))"
  by (simp add: Record_init_inv add_phone_inv edit_phone_inv remove_phone_inv)

theorem unique_phones_invariant_witness:
  "Record_init ''John Doe'' [''1234567890''] (Some ''1990-05-15'') = Inr john
   \<and> Record_inv john
   \<and> Record_inv (snd (add_phone john ''1234567890''))
   \<and> Record_inv (snd (edit_phone john ''1234567890'' ''9999999999''))
   \<and> Record_inv (snd (remove_phone john ''1234567890''))"
  using unique_phones_invariant
    [of "''John Doe''" "[''1234567890'']" "Some ''1990-05-15''" john john "''1234567890''"
        "''1234567890''" "''9999999999''"]
    Record_init_john
  by simp

section \<open>AddressBook: searching\<close>

lemma startswith_iff: "startswith s q \<longleftrightarrow> (\<exists>suf. s = q @ suf)"
  by (induction s q rule: startswith.induct) auto

lemma str_contains_iff: "str_contains q s \<longleftrightarrow> (\<exists>pre suf. s = pre @ q @ suf)"
proof (induction s)
  case Nil
  then show ?case by auto
next
  case (Cons c cs)
  show ?case
  proof
    assume "str_contains q (c # cs)"
    then consider "startswith (c # cs) q" | "str_contains q cs" by auto
    then show "\<exists>pre suf. c # cs = pre @ q @ suf"
    proof cases
      case 1
      then obtain suf where "c # cs = q @ suf" by (auto simp: startswith_iff)
      then have "c # cs = [] @ q @ suf" by simp
      then show ?thesis by blast
    next
      case 2
      with Cons obtain pre suf where "cs = pre @ q @ suf" by blast
      then have "c # cs = (c # pre) @ q @ suf" by simp
      then show ?thesis by blast
    qed
  next
    assume "\<exists>pre suf. c # cs = pre @ q @ suf"
    then obtain pre suf where e: "c # cs = pre @ q @ suf" by blast
    show "str_contains q (c # cs)"
    proof (cases pre)
      case Nil
      with e have "startswith (c # cs) q" by (auto simp: startswith_iff)
      then show ?thesis by simp
    next
      case (Cons a pre')
      with e have "cs = pre' @ q @ suf" by simp
      then have "str_contains q cs" using Cons.IH by blast
      then show ?thesis by simp
    qed
  qed
qed

lemma find_phones_loop_eq:
  "find_phones_loop q r ps results
     = results @ replicate (length (filter (\<lambda>p. str_contains q (phone_value p)) ps)) r"
  by (induction ps arbitrary: results) (simp_all add: replicate_app_Cons_same)

lemma find_loop_eq: "find_loop q rs results = results @ concat (map (hits q) rs)"
  by (induction rs arbitrary: results)
    (simp_all add: find_phones_loop_eq hits_def name_matches_def matching_phones_def)

lemma find_ab_eq: "find_ab ab q = concat (map (hits q) (dict_values (data ab)))"
  by (simp add: find_ab_def find_loop_eq)

lemma set_hits:
  "set (hits q r) = (if name_matches q r \<or> matching_phones q r \<noteq> [] then {r} else {})"
  by (auto simp: hits_def)

lemma dict_set_member: "(k, v) \<in> set (dict_set k v d)"
  by (induction d) auto

text \<open>
  C3: \<open>find(query)\<close> returns, in the order of the mapping, for each record one entry if
  the lower-cased query is a substring of its lower-cased name and one more entry for
  each of its phones that has the query as a substring; so the records returned are
  exactly those that match by name or by some phone, and a record is repeated, not
  deduplicated. After \<open>add_record\<close> of John Doe with phone 1234567890, \<open>find("john")\<close>
  contains that record, and in a book that holds nothing else \<open>find("999")\<close> is empty.
\<close>

theorem find_ab_matches:
  "find_ab ab q = concat (map (hits q) (dict_values (data ab)))
   \<and> set (find_ab ab q)
       = {r \<in> set (dict_values (data ab)).
            (\<exists>pre suf. lower (name_value (name r)) = pre @ lower q @ suf)
            \<or> (\<exists>p \<in> set (phones r). \<exists>pre suf. phone_value p = pre @ q @ suf)}
   \<and> john \<in> set (find_ab (add_record ab john) ''john'')
   \<and> find_ab (add_record (new_book f) john) ''999'' = []"
proof -
  have m: "matching_phones q r \<noteq> [] \<longleftrightarrow>
      (\<exists>p \<in> set (phones r). \<exists>pre suf. phone_value p = pre @ q @ suf)" for r
    by (simp add: matching_phones_def filter_empty_conv str_contains_iff)
  have n: "name_matches q r \<longleftrightarrow> (\<exists>pre suf. lower (name_value (name r)) = pre @ lower q @ suf)"
    for r
    by (simp add: name_matches_def str_contains_iff)
  have b: "set (find_ab ab q) = {r \<in> set (dict_values (data ab)).
            (\<exists>pre suf. lower (name_value (name r)) = pre @ lower q @ suf)
            \<or> (\<exists>p \<in> set (phones r). \<exists>pre suf. phone_value p = pre @ q @ suf)}"
    unfolding find_ab_eq by (auto simp: set_hits m [symmetric] n [symmetric] split: if_splits)
  have "name_matches ''john'' john" by code_simp
  then have "john \<in> set (hits ''john'' john)" by (simp add: set_hits)
  moreover have "john \<in> set (dict_values (data (add_record ab john)))"
    using dict_set_member [of "name_value (name john)" john "data ab"]
    by (force simp: add_record_def dict_values_def)
  ultimately have c: "john \<in> set (find_ab (add_record ab john) ''john'')"
    unfolding find_ab_eq by auto
  have "hits ''999'' john = []" by code_simp
  then have d: "find_ab (add_record (new_book f) john) ''999'' = []"
    unfolding find_ab_eq by (simp add: add_record_def new_book_def dict_values_def)
  from find_ab_eq b c d show ?thesis by blast
qed

theorem find_ab_matches_witness:
  "find_ab (add_record (new_book ''address_book.pkl'') john) ''JOHN'' = [john]
   \<and> find_ab (add_record (new_book ''address_book.pkl'') john) ''456'' = [john]
   \<and> find_ab (add_record (new_book ''address_book.pkl'') john) [] = [john, john]
   \<and> find_ab (add_record (new_book ''address_book.pkl'') john) ''999'' = []"
proof -
  let ?ab = "add_record (new_book ''address_book.pkl'') john"
  have v: "dict_values (data ?ab) = [john]"
    by (simp add: add_record_def new_book_def dict_values_def)
  have h: "hits ''JOHN'' john = [john]" "hits ''456'' john = [john]"
    "hits [] john = [john, john]" "hits ''999'' john = []"
    by code_simp+
  show ?thesis
    using find_ab_matches [of ?ab "''JOHN''" "''address_book.pkl''"]
      find_ab_matches [of ?ab "''456''" "''address_book.pkl''"]
      find_ab_matches [of ?ab "[]" "''address_book.pkl''"]
      find_ab_matches [of ?ab "''999''" "''address_book.pkl''"]
    by (simp only: v h list.map concat.simps append.simps simp_thms)
qed

section \<open>AddressBook: batches\<close>

declare iterator_loop.simps [simp del]

lemma iterator_loop_step:
  "0 < bs \<Longrightarrow> i < length rs \<Longrightarrow>
   iterator_loop rs bs i = take bs (drop i rs) # iterator_loop rs bs (i + bs)"
  by (subst iterator_loop.simps) simp

lemma iterator_loop_done: "length rs \<le> i \<Longrightarrow> iterator_loop rs bs i = []"
  by (subst iterator_loop.simps) simp

lemma concat_iterator_loop:
  "0 < bs \<Longrightarrow> concat (iterator_loop rs bs i) = drop i rs"
proof (induction rs bs i rule: iterator_loop.induct)
  case (1 rs bs i)
  show ?case
  proof (cases "i < length rs")
    case True
    have "take bs (drop i rs) @ drop (i + bs) rs = drop i rs"
      by (metis add.commute append_take_drop_id drop_drop)
    with 1 True show ?thesis
      by (subst iterator_loop.simps) simp
  next
    case False
    then show ?thesis by (subst iterator_loop.simps) simp
  qed
qed

lemma iterator_loop_batches:
  "0 < bs \<Longrightarrow> b \<in> set (iterator_loop rs bs i) \<Longrightarrow> 0 < length b \<and> length b \<le> bs"
proof (induction rs bs i rule: iterator_loop.induct)
  case (1 rs bs i)
  show ?case
  proof (cases "i < length rs")
    case True
    with "1.prems" have "b = take bs (drop i rs) \<or> b \<in> set (iterator_loop rs bs (i + bs))"
      by (subst (asm) iterator_loop.simps) simp
    then show ?thesis
    proof
      assume "b = take bs (drop i rs)"
      with True "1.prems"(1) show ?thesis by simp
    next
      assume "b \<in> set (iterator_loop rs bs (i + bs))"
      with 1 True show ?thesis by simp
    qed
  next
    case False
    with "1.prems" show ?thesis by (subst (asm) iterator_loop.simps) simp
  qed
qed

lemma iterator_loop_full_batches:
  "0 < bs \<Longrightarrow> b \<in> set (butlast (iterator_loop rs bs i)) \<Longrightarrow> length b = bs"
proof (induction rs bs i rule: iterator_loop.induct)
  case (1 rs bs i)
  show ?case
  proof (cases "i < length rs")
    case True
    note unfold = iterator_loop.simps [of rs bs i]
    show ?thesis
    proof (cases "iterator_loop rs bs (i + bs) = []")
      case True
      with \<open>i < length rs\<close> "1.prems" unfold show ?thesis by simp
    next
      case False
      then have "i + bs < length rs"
        by (subst (asm) iterator_loop.simps) (simp split: if_splits)
      with False "1.prems" unfold True
      have "b = take bs (drop i rs) \<or> b \<in> set (butlast (iterator_loop rs bs (i + bs)))"
        by simp
      then show ?thesis
      proof
        assume "b = take bs (drop i rs)"
        with \<open>i + bs < length rs\<close> show ?thesis by simp
      next
        assume "b \<in> set (butlast (iterator_loop rs bs (i + bs)))"
        with 1 True show ?thesis by simp
      qed
    qed
  next
    case False
    with "1.prems" show ?thesis by (subst (asm) iterator_loop.simps) simp
  qed
qed

lemma iterator_loop_five:
  assumes "length rs = 5"
  shows "map length (iterator_loop rs 2 0) = [2, 2, 1]"
proof -
  have n: "(0::nat) + 2 = 2" "(2::nat) + 2 = 4" "(4::nat) + 2 = 6"
    by simp_all
  have s6: "iterator_loop rs 2 6 = []"
    by (rule iterator_loop_done) (simp add: assms)
  have s4: "iterator_loop rs 2 4 = take 2 (drop 4 rs) # iterator_loop rs 2 (4 + 2)"
    by (rule iterator_loop_step) (simp_all add: assms)
  have s2: "iterator_loop rs 2 2 = take 2 (drop 2 rs) # iterator_loop rs 2 (2 + 2)"
    by (rule iterator_loop_step) (simp_all add: assms)
  have s0: "iterator_loop rs 2 0 = take 2 (drop 0 rs) # iterator_loop rs 2 (0 + 2)"
    by (rule iterator_loop_step) (simp_all add: assms)
  have "iterator_loop rs 2 0 = [take 2 (drop 0 rs), take 2 (drop 2 rs), take 2 (drop 4 rs)]"
    using s0 s2 s4 s6 unfolding n by (simp only:)
  then show ?thesis
    using assms by simp
qed

text \<open>
  C4: for a positive \<open>batch_size\<close> the generator yields finitely many batches. Joined
  in order they are the records of the mapping in insertion order, so every record is
  covered exactly once; no batch is empty or longer than \<open>batch_size\<close>, and every batch
  but the last has exactly \<open>batch_size\<close> records. Over 5 records with
  \<open>batch_size = 2\<close> the batch sizes are 2, 2, 1.
\<close>

theorem iterator_batches:
  assumes "0 < batch_size"
  shows "\<exists>batches. iterator ab batch_size = Inr batches
     \<and> concat batches = dict_values (data ab)
     \<and> (\<forall>b \<in> set batches. 0 < length b \<and> int (length b) \<le> batch_size)
     \<and> (\<forall>b \<in> set (butlast batches). int (length b) = batch_size)
     \<and> (length (data ab) = 5 \<and> batch_size = 2 \<longrightarrow> map length batches = [2, 2, 1])"
proof -
  let ?rs = "dict_values (data ab)"
  let ?bs = "nat batch_size"
  have pos: "0 < ?bs" using assms by simp
  have e: "iterator ab batch_size = Inr (iterator_loop ?rs ?bs 0)"
    using assms by (simp add: iterator_def)
  have c: "concat (iterator_loop ?rs ?bs 0) = ?rs"
    using concat_iterator_loop [OF pos, of ?rs 0] by simp
  have l: "\<forall>b \<in> set (iterator_loop ?rs ?bs 0). 0 < length b \<and> int (length b) \<le> batch_size"
  proof
    fix b
    assume "b \<in> set (iterator_loop ?rs ?bs 0)"
    then have "0 < length b \<and> length b \<le> ?bs"
      by (rule iterator_loop_batches [OF pos])
    with assms show "0 < length b \<and> int (length b) \<le> batch_size" by linarith
  qed
  have f: "\<forall>b \<in> set (butlast (iterator_loop ?rs ?bs 0)). int (length b) = batch_size"
  proof
    fix b
    assume "b \<in> set (butlast (iterator_loop ?rs ?bs 0))"
    then have "length b = ?bs"
      by (rule iterator_loop_full_batches [OF pos])
    with assms show "int (length b) = batch_size" by simp
  qed
  have g: "length (data ab) = 5 \<and> batch_size = 2 \<longrightarrow>
      map length (iterator_loop ?rs ?bs 0) = [2, 2, 1]"
  proof
    assume h: "length (data ab) = 5 \<and> batch_size = 2"
    then have "length ?rs = 5" by (simp add: dict_values_def)
    then have "map length (iterator_loop ?rs 2 0) = [2, 2, 1]"
      by (rule iterator_loop_five)
    moreover from h have "?bs = 2" by simp
    ultimately show "map length (iterator_loop ?rs ?bs 0) = [2, 2, 1]" by (simp only:)
  qed
  show ?thesis
    by (rule exI [of _ "iterator_loop ?rs ?bs 0"]) (intro conjI e c l f g)
qed

theorem iterator_batches_witness:
  "(0::int) < 2
   \<and> (\<exists>batches. iterator five_book 2 = Inr batches
        \<and> concat batches = map rec_named [''a'', ''b'', ''c'', ''d'', ''e'']
        \<and> map length batches = [2, 2, 1])"
proof -
  have h: "(0::int) < 2" by simp
  have v: "dict_values (data five_book) = map rec_named [''a'', ''b'', ''c'', ''d'', ''e'']"
    by (simp add: five_book_def add_record_def new_book_def rec_named_def dict_values_def)
  have "length (dict_values (data five_book)) = 5"
    unfolding v by simp
  then have l: "length (data five_book) = 5"
    unfolding dict_values_def by (simp only: length_map)
  have "\<exists>batches. iterator five_book 2 = Inr batches
     \<and> concat batches = dict_values (data five_book)
     \<and> (\<forall>b \<in> set batches. 0 < length b \<and> int (length b) \<le> 2)
     \<and> (\<forall>b \<in> set (butlast batches). int (length b) = 2)
     \<and> (length (data five_book) = 5 \<and> (2::int) = 2 \<longrightarrow> map length batches = [2, 2, 1])"
    by (rule iterator_batches [OF h])
  then show ?thesis
  proof (elim exE conjE)
    fix batches
    assume b1: "iterator five_book 2 = Inr batches"
      and b2: "concat batches = dict_values (data five_book)"
      and b5: "length (data five_book) = 5 \<and> (2::int) = 2 \<longrightarrow> map length batches = [2, 2, 1]"
    from b5 l have m: "map length batches = [2, 2, 1]" by simp
    from b2 v have c: "concat batches = map rec_named [''a'', ''b'', ''c'', ''d'', ''e'']"
      by (simp only:)
    show ?thesis
      by (intro conjI exI [of _ batches] h b1 c m)
  qed
qed

section \<open>AddressBook: persistence\<close>










section \<open>Record: every stored phone is valid\<close>

lemma add_phone_valid:
  "list_all (\<lambda>p. is_valid_phone (phone_value p)) (phones r) \<Longrightarrow>
   list_all (\<lambda>p. is_valid_phone (phone_value p)) (phones (snd (add_phone r n)))"
  by (auto simp: add_phone_def split: sum.splits dest!: Phone_init_Inr)

lemma assign_value_valid:
  "list_all (\<lambda>p. is_valid_phone (phone_value p)) ps \<Longrightarrow> is_valid_phone (phone_value q) \<Longrightarrow>
   list_all (\<lambda>p. is_valid_phone (phone_value p)) (assign_value p0 q ps)"
  by (induction ps) auto

lemma edit_phone_valid:
  "list_all (\<lambda>p. is_valid_phone (phone_value p)) (phones r) \<Longrightarrow>
   list_all (\<lambda>p. is_valid_phone (phone_value p)) (phones (snd (edit_phone r old new)))"
  by (auto simp: edit_phone_def split: sum.splits option.splits
      dest!: Phone_init_Inr intro!: assign_value_valid)

lemma remove_phone_valid:
  "list_all (\<lambda>p. is_valid_phone (phone_value p)) (phones r) \<Longrightarrow>
   list_all (\<lambda>p. is_valid_phone (phone_value p)) (phones (snd (remove_phone r n)))"
proof -
  have "set (remove1 p (phones r)) \<subseteq> set (phones r)" for p
    by (rule set_remove1_subset)
  then show "list_all (\<lambda>p. is_valid_phone (phone_value p)) (phones r) \<Longrightarrow> ?thesis"
    by (auto simp: remove_phone_def list_all_iff split: option.splits)
qed

lemma add_phones_valid:
  "list_all (\<lambda>p. is_valid_phone (phone_value p)) (phones r) \<Longrightarrow> add_phones r ns = Inr r' \<Longrightarrow>
   list_all (\<lambda>p. is_valid_phone (phone_value p)) (phones r')"
proof (induction ns arbitrary: r)
  case Nil
  then show ?case by simp
next
  case (Cons n ns)
  obtain out r1 where a: "add_phone r n = (out, r1)" by (cases "add_phone r n")
  with Cons.prems(2) have "add_phones r1 ns = Inr r'"
    by (cases out) auto
  moreover have "list_all (\<lambda>p. is_valid_phone (phone_value p)) (phones r1)"
    using add_phone_valid [OF Cons.prems(1), of n] a by simp
  ultimately show ?case by (rule Cons.IH [rotated])
qed

lemma Record_init_valid:
  "Record_init nm ns b = Inr r \<Longrightarrow> list_all (\<lambda>p. is_valid_phone (phone_value p)) (phones r)"
proof -
  assume "Record_init nm ns b = Inr r"
  then obtain b' where "add_phones \<lparr>name = Name nm, phones = [], birthday = b'\<rparr> ns = Inr r"
    by (auto simp: Record_init_def split: sum.splits)
  moreover have "list_all (\<lambda>p. is_valid_phone (phone_value p))
      (phones \<lparr>name = Name nm, phones = [], birthday = b'\<rparr>)"
    by simp
  ultimately show ?thesis by (rule add_phones_valid [rotated])
qed

section \<open>Record: days to the birthday\<close>

lemma days_to_birthday_no_birthday:
  "birthday r = None \<Longrightarrow> days_to_birthday r today = Inr None"
  by (simp add: days_to_birthday_def)

lemma john_args: "map_int (str_split CHR ''-'' ''1990-05-15'') = Inr [1990, 5, 15]"
  by code_simp

text \<open>
  C1 does not hold of the code. For the record of John Doe, whose birthday is
  1990-05-15, \<open>days_to_birthday\<close> raises on every day instead of returning a number of
  days: line 98 splits the whole string, so \<open>datetime\<close> receives today's year followed
  by 1990, 5 and 15, and takes 1990 for the month.
\<close>

theorem days_to_birthday_john_raises: "days_to_birthday john today = Inl LibraryError"
proof -
  have a: "birthday john = Some (Birthday ''1990-05-15'')"
    by (simp add: john_def)
  have b: "datetime_date y [1990, 5, 15] = Inl LibraryError" for y
    by (simp add: datetime_date_def check_date_fields_def)
  show ?thesis
    unfolding days_to_birthday_def a
    by (simp only: option.case Birthday.sel john_args sum.case b)
qed

text \<open>
  The same happens for every birthday that \<open>Birthday\<close> accepts with a year after 12.
\<close>

lemma py_int_error: "py_int s = Inl e \<Longrightarrow> e = LibraryError"
  by (auto simp: py_int_def split: list.splits if_splits)

lemma map_int_error: "map_int ps = Inl e \<Longrightarrow> e = LibraryError"
  by (induction ps) (auto split: sum.splits dest: py_int_error)

lemma isdecimal_not_space: "isdecimal c \<Longrightarrow> \<not> isspace c"
  by (auto simp: isdecimal_def isspace_def Let_def)

lemma isdecimal_not_sign: "isdecimal c \<Longrightarrow> c \<noteq> CHR ''-'' \<and> c \<noteq> CHR ''+'' \<and> c \<noteq> CHR ''_''"
  by (auto simp: isdecimal_def)

lemma int_body_ok_digits: "list_all isdecimal s \<Longrightarrow> s \<noteq> [] \<Longrightarrow> int_body_ok s"
  by (induction s rule: int_body_ok.induct) (auto dest: isdecimal_not_sign)

lemma strip_digits: "list_all isdecimal s \<Longrightarrow> strip s = s"
proof (cases s rule: rev_cases)
  case Nil
  then show ?thesis by (simp add: strip_def)
next
  case (snoc ys y)
  assume a: "list_all isdecimal s"
  with snoc have y: "\<not> isspace y" by (simp add: isdecimal_not_space)
  from a have "dropWhile isspace s = s"
    by (cases s) (simp_all add: isdecimal_not_space)
  with y snoc show ?thesis by (simp add: strip_def)
qed

lemma py_int_digits:
  assumes "list_all isdecimal s" and "s \<noteq> []"
  shows "py_int s = Inr (digits_value 0 s)"
proof -
  from assms obtain c cs where s: "s = c # cs" by (cases s) auto
  with assms(1) have c: "c \<noteq> CHR ''-''" "c \<noteq> CHR ''+''"
    using isdecimal_not_sign [of c] by auto
  have "strip s = c # cs" using strip_digits [OF assms(1)] s by simp
  moreover have "int_body_ok (c # cs)" using int_body_ok_digits [OF assms] s by simp
  ultimately show ?thesis using c s by (simp add: py_int_def)
qed

lemma strptime_ymd_parts:
  assumes "strptime_ymd b = Inr d"
  shows "\<exists>y m dd. str_split CHR ''-'' b = [y, m, dd] \<and> length y = 4 \<and> list_all isdecimal y
           \<and> year d = digits_value 0 y"
proof (cases "str_split CHR ''-'' b")
  case Nil
  with assms show ?thesis by (simp add: strptime_ymd_def)
next
  case c1: (Cons y r1)
  show ?thesis
  proof (cases r1)
    case Nil
    with assms c1 show ?thesis by (simp add: strptime_ymd_def)
  next
    case c2: (Cons m r2)
    show ?thesis
    proof (cases r2)
      case Nil
      with assms c1 c2 show ?thesis by (simp add: strptime_ymd_def)
    next
      case c3: (Cons dd r3)
      show ?thesis
      proof (cases r3)
        case Nil
        with assms c1 c2 c3 show ?thesis
          by (auto simp: strptime_ymd_def split: if_splits)
      next
        case (Cons a r4)
        with assms c1 c2 c3 show ?thesis by (simp add: strptime_ymd_def)
      qed
    qed
  qed
qed

lemma datetime_date_bad_month:
  "12 < M \<Longrightarrow> datetime_date yr (M # rest) = Inl LibraryError"
  by (simp add: datetime_date_def check_date_fields_def split: list.splits)

lemma days_to_birthday_year_as_month:
  assumes "strptime_ymd b = Inr d" and "12 < year d" and "birthday r = Some (Birthday b)"
  shows "days_to_birthday r today = Inl LibraryError"
proof -
  from strptime_ymd_parts [OF assms(1)] obtain y m dd
    where s: "str_split CHR ''-'' b = [y, m, dd]"
    and y: "length y = 4" "list_all isdecimal y" and d: "year d = digits_value 0 y"
    by blast
  from y have "y \<noteq> []" by auto
  with y have py: "py_int y = Inr (digits_value 0 y)"
    by (intro py_int_digits)
  show ?thesis
  proof (cases "map_int [m, dd]")
    case (Inl e)
    then have m: "map_int [y, m, dd] = Inl LibraryError"
      using py map_int_error [OF Inl] by simp
    show ?thesis
      unfolding days_to_birthday_def assms(3)
      by (simp only: option.case Birthday.sel s m sum.case)
  next
    case (Inr vs)
    then have m: "map_int [y, m, dd] = Inr (digits_value 0 y # vs)"
      using py by simp
    have e: "datetime_date yr (digits_value 0 y # vs) = Inl LibraryError" for yr
      using assms(2) d by (intro datetime_date_bad_month) simp
    show ?thesis
      unfolding days_to_birthday_def assms(3)
      by (simp only: option.case Birthday.sel s m sum.case e)
  qed
qed

text \<open>
  With a year from 1 to 12 the call raises when the birthday's day, taken for the hour,
  is above 23; otherwise it counts the days to the date whose month is the birthday's
  year and whose day is the birthday's month, which is the birthday only when the three
  numbers are equal. For the birthday 0005-03-15, on 2026-11-03, it returns the 181 days
  to 2027-05-03.
\<close>

lemma days_to_birthday_next_year:
  assumes "birthday r = Some (Birthday b)"
    and "map_int (str_split CHR ''-'' b) = Inr args"
    and "datetime_date (year today) args = Inr nb"
    and "date_gt today nb"
    and "datetime_date (year today + 1) args = Inr nb'"
  shows "days_to_birthday r today = Inr (Some (toordinal nb' - toordinal today))"
  using assms by (simp add: days_to_birthday_def)

lemma small_year_args: "map_int (str_split CHR ''-'' ''0005-03-15'') = Inr [5, 3, 15]"
  by code_simp

lemma days_to_birthday_small_year:
  "days_to_birthday ann \<lparr>year = 2026, month = 11, day = 3\<rparr> = Inr (Some 181)"
proof -
  let ?today = "\<lparr>year = 2026, month = 11, day = 3\<rparr>"
  let ?nb = "\<lparr>year = 2026, month = 5, day = 3\<rparr>"
  let ?nb' = "\<lparr>year = 2027, month = 5, day = 3\<rparr>"
  have a: "birthday ann = Some (Birthday ''0005-03-15'')"
    by (simp add: ann_def)
  have d1: "datetime_date (year ?today) [5, 3, 15] = Inr ?nb"
    by (simp add: datetime_date_def check_date_fields_def check_time_fields_def
        days_in_month_def)
  have g: "date_gt ?today ?nb"
    by (simp add: date_gt_def)
  have d2: "datetime_date (year ?today + 1) [5, 3, 15] = Inr ?nb'"
    by (simp add: datetime_date_def check_date_fields_def check_time_fields_def
        days_in_month_def)
  have o: "toordinal ?nb' - toordinal ?today = 181"
    by code_simp
  show ?thesis
    using days_to_birthday_next_year [OF a small_year_args d1 g d2] o by simp
qed

end
